theory Spec2Isabelle
  imports Main
begin

section \<open>Python dictionaries\<close>

text \<open>
  A Python \<^verbatim>\<open>dict\<close> keeps its keys in insertion order, and the order in which
  \<^verbatim>\<open>analyze_network_changes\<close> announces depends on it. A dictionary is therefore an
  association list whose keys are pairwise different: storing under a key that is present
  replaces the value in place, storing under a new key appends, deleting removes.
\<close>

type_synonym ('k, 'v) dict = "('k \<times> 'v) list"

definition dict_keys :: "('k, 'v) dict \<Rightarrow> 'k list" where
  "dict_keys d = map fst d"

definition dict_get :: "('k, 'v) dict \<Rightarrow> 'k \<Rightarrow> 'v option" where
  "dict_get d k = map_of d k"

fun dict_set :: "'k \<Rightarrow> 'v \<Rightarrow> ('k, 'v) dict \<Rightarrow> ('k, 'v) dict" where
  "dict_set k v [] = [(k, v)]"
| "dict_set k v (p # d) = (if fst p = k then (k, v) # d else p # dict_set k v d)"

definition dict_del :: "'k \<Rightarrow> ('k, 'v) dict \<Rightarrow> ('k, 'v) dict" where
  "dict_del k d = filter (\<lambda>p. fst p \<noteq> k) d"

section \<open>phone-detector.py: the scan-diff-announce loop\<close>

subsection \<open>Data\<close>

text \<open>
  The value stored for a network is the dictionary
  \<^verbatim>\<open>{'signal': ..., 'first_seen': ...}\<close>; the time stamp is a clock reading.
  Python integers are unbounded, so the signal is an \<^typ>\<open>int\<close>.
\<close>

record netdata =
  signal :: int
  first_seen :: nat

type_synonym networks = "(string, netdata) dict"

text \<open>
  Each call of \<^verbatim>\<open>self.announce\<close> in \<^verbatim>\<open>analyze_network_changes\<close> is recorded as the
  branch that made it, with the values the message is formatted from.
\<close>

datatype event =
    Appeared string int
  | Strengthened string int int
  | Disappeared string

fun event_ssid :: "event \<Rightarrow> string" where
  "event_ssid (Appeared k s) = k"
| "event_ssid (Strengthened k old new) = k"
| "event_ssid (Disappeared k) = k"

subsection \<open>Formatting the announcements\<close>





subsection \<open>analyze\_network\_changes\<close>

text \<open>
  The first loop runs over \<^verbatim>\<open>current_networks.items()\<close> and tests each key against
  \<^verbatim>\<open>self.known_networks\<close> as the loop has left it so far. A new key stores the scan's
  own value; a known key keeps its stored value and has only \<^verbatim>\<open>'signal'\<close> overwritten.
\<close>

fun check_new_or_stronger :: "networks \<Rightarrow> networks \<Rightarrow> event list \<times> networks" where
  "check_new_or_stronger [] known = ([], known)"
| "check_new_or_stronger ((k, data) # rest) known =
     (case dict_get known k of
        None \<Rightarrow>
          (let (evs, known') = check_new_or_stronger rest (dict_set k data known)
           in (Appeared k (signal data) # evs, known'))
      | Some stored \<Rightarrow>
          (let old_signal = signal stored;
               new_signal = signal data;
               (evs, known') =
                 check_new_or_stronger rest
                   (dict_set k (stored\<lparr>signal := new_signal\<rparr>) known)
           in ((if new_signal > old_signal + 20
                then [Strengthened k old_signal new_signal] else []) @ evs, known')))"

text \<open>
  The second loop runs over a snapshot of the keys,
  \<^verbatim>\<open>list(self.known_networks.keys())\<close>, and deletes the keys the scan does not have.
\<close>

fun check_disappeared :: "string list \<Rightarrow> networks \<Rightarrow> networks \<Rightarrow> event list \<times> networks" where
  "check_disappeared [] current known = ([], known)"
| "check_disappeared (k # rest) current known =
     (if k \<notin> set (dict_keys current)
      then (let (evs, known') = check_disappeared rest current (dict_del k known)
            in (Disappeared k # evs, known'))
      else check_disappeared rest current known)"

definition analyze_network_changes :: "networks \<Rightarrow> networks \<Rightarrow> event list \<times> networks" where
  "analyze_network_changes known current =
     (let (evs1, known1) = check_new_or_stronger current known;
          (evs2, known2) = check_disappeared (dict_keys known1) current known1
      in (evs1 @ evs2, known2))"

definition events_for :: "string \<Rightarrow> event list \<Rightarrow> event list" where
  "events_for k evs = filter (\<lambda>e. event_ssid e = k) evs"

subsection \<open>get\_networks: reading the scanner's output\<close>

text \<open>
  The text is the decoded output of the \<^verbatim>\<open>netsh\<close> call, every character a code
  point below 256. The string operations are those of Python: \<^verbatim>\<open>sub in s\<close>,
  \<^verbatim>\<open>s.split(sep)\<close>, \<^verbatim>\<open>s.strip()\<close>, \<^verbatim>\<open>s.replace('%', '')\<close> and
  \<^verbatim>\<open>int(s)\<close>.
\<close>

fun startswith :: "string \<Rightarrow> string \<Rightarrow> bool" where
  "startswith s [] = True"
| "startswith [] (p # ps) = False"
| "startswith (c # cs) (p # ps) = (c = p \<and> startswith cs ps)"

fun contains :: "string \<Rightarrow> string \<Rightarrow> bool" where
  "contains sub [] = (sub = [])"
| "contains sub (c # cs) = (startswith (c # cs) sub \<or> contains sub cs)"

fun split_on :: "char \<Rightarrow> string \<Rightarrow> string list" where
  "split_on sep [] = [[]]"
| "split_on sep (c # cs) =
     (if c = sep then [] # split_on sep cs
      else (case split_on sep cs of
              [] \<Rightarrow> [[c]]
            | w # ws \<Rightarrow> (c # w) # ws))"

text \<open>
  \<^verbatim>\<open>s.strip()\<close> removes from both ends the characters that \<^verbatim>\<open>str.isspace\<close> accepts;
  below 256 these are 0x09 to 0x0D, 0x1C to 0x1F, the space, 0x85 and 0xA0.
\<close>

definition isspace :: "char \<Rightarrow> bool" where
  "isspace c \<longleftrightarrow>
     c \<in> set [CHR '' '', CHR 0x09, CHR 0x0A, CHR 0x0B, CHR 0x0C, CHR 0x0D,
              CHR 0x1C, CHR 0x1D, CHR 0x1E, CHR 0x1F, CHR 0x85, CHR 0xA0]"

definition strip :: "string \<Rightarrow> string" where
  "strip s = rev (dropWhile isspace (rev (dropWhile isspace s)))"

definition isdigit :: "char \<Rightarrow> bool" where
  "isdigit c \<longleftrightarrow> c \<in> set ''0123456789''"

definition digit_value :: "char \<Rightarrow> nat" where
  "digit_value c = of_char c - 48"

text \<open>
  \<^verbatim>\<open>int(s)\<close> accepts surrounding white space, one sign, and decimal digits with single
  underscores between them; anything else raises \<^verbatim>\<open>ValueError\<close>, here \<open>None\<close>.
  Its white space is narrower than that of \<^verbatim>\<open>strip\<close>: space, tab, line feed, vertical
  tab, form feed and carriage return, and the two non-ASCII spaces 0x85 and 0xA0, which the
  conversion turns into spaces first; 0x1C to 0x1F are refused. A literal of more than 4300
  digits is refused as well (the default of \<^verbatim>\<open>sys.get_int_max_str_digits()\<close>).
\<close>

definition int_space :: "char \<Rightarrow> bool" where
  "int_space c \<longleftrightarrow>
     c \<in> set [CHR '' '', CHR 0x09, CHR 0x0A, CHR 0x0B, CHR 0x0C, CHR 0x0D, CHR 0x85, CHR 0xA0]"

fun int_digits :: "nat \<Rightarrow> string \<Rightarrow> nat option" where
  "int_digits acc [] = Some acc"
| "int_digits acc [c] = (if isdigit c then Some (acc * 10 + digit_value c) else None)"
| "int_digits acc (c # d # ds) =
     (if isdigit c then int_digits (acc * 10 + digit_value c) (d # ds)
      else if c = CHR ''_'' \<and> isdigit d then int_digits (acc * 10 + digit_value d) ds
      else None)"

definition int_unsigned :: "string \<Rightarrow> nat option" where
  "int_unsigned s =
     (case s of
        [] \<Rightarrow> None
      | c # cs \<Rightarrow> if isdigit c then int_digits (digit_value c) cs else None)"

definition py_int :: "string \<Rightarrow> int option" where
  "py_int s =
     (case rev (dropWhile int_space (rev (dropWhile int_space s))) of
        [] \<Rightarrow> None
      | c # cs \<Rightarrow>
          if length (filter isdigit (c # cs)) > 4300 then None
          else if c = CHR ''-'' then map_option (\<lambda>n. - int n) (int_unsigned cs)
          else if c = CHR ''+'' then map_option int (int_unsigned cs)
          else map_option int (int_unsigned (c # cs)))"

datatype error = ValueError | KeyError | FileNotFoundError

text \<open>
  What \<^verbatim>\<open>subprocess.check_output\<close> does: it returns the text, it raises
  \<^verbatim>\<open>CalledProcessError\<close> (the command ran and failed), or it raises something else
  (the command is not there).
\<close>

datatype proc_result = Completed string | CalledProcessError string | CommandMissing

definition field :: "string \<Rightarrow> string" where
  "field line = strip (last (split_on CHR '':'' line))"


text \<open>
  The loop over the lines, with \<^verbatim>\<open>networks\<close> and \<^verbatim>\<open>current_ssid\<close> as its state.
  A line with an empty name is passed over and leaves \<^verbatim>\<open>current_ssid\<close> as it was.
  A signal that \<^verbatim>\<open>int\<close> refuses raises out of \<^verbatim>\<open>get_networks\<close>, which catches
  \<^verbatim>\<open>CalledProcessError\<close> only.
\<close>

fun parse_lines :: "nat \<Rightarrow> string list \<Rightarrow> networks \<Rightarrow> string option \<Rightarrow> error + networks" where
  "parse_lines now [] networks current_ssid = Inr networks"
| "parse_lines now (line # rest) networks current_ssid =
     (if contains ''SSID'' line \<and> \<not> contains ''BSSID'' line then
        (let name = field line in
         if name \<noteq> [] then
           parse_lines now rest
             (dict_set name \<lparr>signal = 0, first_seen = now\<rparr> networks) (Some name)
         else parse_lines now rest networks current_ssid)
      else if contains ''Signal'' line \<and> current_ssid \<noteq> None \<and> current_ssid \<noteq> Some [] then
        (case py_int (filter (\<lambda>c. c \<noteq> CHR ''%'') (field line)) of
           None \<Rightarrow> Inl ValueError
         | Some percent \<Rightarrow>
             (case dict_get networks (the current_ssid) of
                None \<Rightarrow> Inl KeyError
              | Some data \<Rightarrow>
                  parse_lines now rest
                    (dict_set (the current_ssid) (data\<lparr>signal := percent\<rparr>) networks)
                    current_ssid))
      else parse_lines now rest networks current_ssid)"

text \<open>
  \<^verbatim>\<open>get_networks\<close> returns what it printed and either the scan or the exception that
  leaves it. A \<^verbatim>\<open>CalledProcessError\<close> is printed and answered with the empty dictionary.
\<close>

definition get_networks :: "nat \<Rightarrow> proc_result \<Rightarrow> string list \<times> (error + networks)" where
  "get_networks now r =
     (case r of
        Completed output \<Rightarrow> ([], parse_lines now (split_on CHR 0x0A output) [] None)
      | CalledProcessError e \<Rightarrow> ([''Error scanning networks: '' @ e], Inr [])
      | CommandMissing \<Rightarrow> ([], Inl FileNotFoundError))"

subsection \<open>One turn of the loop of start\_monitoring\<close>

text \<open>
  A turn scans and analyses whatever the scan returned. An exception ends the loop
  (\<^verbatim>\<open>except Exception\<close> around the \<^verbatim>\<open>while\<close>), so the turn has no new state then.
\<close>

definition monitoring_cycle ::
  "nat \<Rightarrow> proc_result \<Rightarrow> networks \<Rightarrow> string list \<times> (error + event list \<times> networks)" where
  "monitoring_cycle now r known =
     (case get_networks now r of
        (printed, Inl e) \<Rightarrow> (printed, Inl e)
      | (printed, Inr current_networks) \<Rightarrow>
          (printed, Inr (analyze_network_changes known current_networks)))"

section \<open>wifi-monitor(1).py: the monitor with the database of names\<close>

subsection \<open>Data\<close>

text \<open>
  A scan result carries the hardware address and the advertised name. The cache
  \<^verbatim>\<open>self.known_networks\<close> maps an address to
  \<^verbatim>\<open>{'ssid': ..., 'custom_name': ...}\<close>, where the custom name read from the table may
  be \<^verbatim>\<open>NULL\<close>. A row of the table \<^verbatim>\<open>networks\<close> is
  (bssid, ssid, custom\_name, first\_seen, last\_seen), with bssid the primary key.
\<close>

record network =
  bssid :: string
  ssid :: string

record known_network =
  known_ssid :: string
  custom_name :: "string option"

type_synonym row = "string \<times> string \<times> string option \<times> nat \<times> nat"

record monitor_state =
  known_networks :: "(string, known_network) dict"
  db :: "row list"

text \<open>
  What the user and the window system do when asked for a name: the dialog cannot be
  shown (an exception), the user cancels (\<^verbatim>\<open>None\<close>), or the user enters a string,
  possibly empty. The flag says whether the database accepts writes at that moment.
\<close>

datatype dialog = DialogFails | Cancelled | Entered string

record surroundings =
  dialog_result :: dialog
  db_writable :: bool

datatype action = Announce string | Prompt string string

subsection \<open>load\_known\_networks\<close>

fun load_known_networks ::
  "row list \<Rightarrow> (string, known_network) dict \<Rightarrow> (string, known_network) dict" where
  "load_known_networks [] known = known"
| "load_known_networks ((b, s, c, f, l) # rows) known =
     load_known_networks rows (dict_set b \<lparr>known_ssid = s, custom_name = c\<rparr> known)"

subsection \<open>prompt\_for\_name\<close>

text \<open>
  The \<^verbatim>\<open>INSERT\<close> raises when the database cannot be written or when the primary key
  is in the table already; the exception is caught, nothing is stored and the result is
  \<^verbatim>\<open>None\<close>. Otherwise row and cache entry are written and the name is returned. An
  entered empty string is returned as it is, with nothing written.
\<close>

definition prompt_for_name ::
  "surroundings \<Rightarrow> nat \<Rightarrow> string \<Rightarrow> string \<Rightarrow> monitor_state \<Rightarrow> string option \<times> monitor_state" where
  "prompt_for_name env now s b st =
     (case dialog_result env of
        DialogFails \<Rightarrow> (None, st)
      | Cancelled \<Rightarrow> (None, st)
      | Entered name \<Rightarrow>
          if name \<noteq> [] then
            (if db_writable env \<and> b \<notin> set (map fst (db st)) then
               (Some name,
                st\<lparr>db := db st @ [(b, s, Some name, now, now)],
                   known_networks :=
                     dict_set b \<lparr>known_ssid = s, custom_name = Some name\<rparr> (known_networks st)\<rparr>)
             else (None, st))
          else (Some name, st))"

subsection \<open>scan\_networks and one turn of the loop of monitor\<close>

datatype scan_outcome = ScanResults "network list" | ScanFails

definition scan_networks :: "scan_outcome \<Rightarrow> network list" where
  "scan_networks r = (case r of ScanResults results \<Rightarrow> results | ScanFails \<Rightarrow> [])"

text \<open>
  The body of the \<^verbatim>\<open>for\<close> loop. The trace lists the calls of \<^verbatim>\<open>announce_network\<close>
  and of the naming dialog, in order. The number \<open>n\<close> counts the dialogs shown so far, so
  that \<open>env n\<close> is what happens at the next one.
\<close>

fun monitor_networks ::
  "(nat \<Rightarrow> surroundings) \<Rightarrow> nat \<Rightarrow> network list \<Rightarrow> nat \<Rightarrow> monitor_state
     \<Rightarrow> action list \<times> nat \<times> monitor_state" where
  "monitor_networks env now [] n st = ([], n, st)"
| "monitor_networks env now (net # rest) n st =
     (if ssid net = [] then monitor_networks env now rest n st
      else if bssid net \<notin> set (dict_keys (known_networks st)) then
        (let (name, st') = prompt_for_name (env n) now (ssid net) (bssid net) st;
             said = [Announce ''New signal detected'', Prompt (ssid net) (bssid net)]
                    @ (if name \<noteq> None \<and> name \<noteq> Some []
                       then [Announce (''Network named '' @ the name)] else []);
             (trace, n', st'') = monitor_networks env now rest (Suc n) st'
         in (said @ trace, n', st''))
      else
        (let name = (case dict_get (known_networks st) (bssid net) of
                       None \<Rightarrow> None | Some e \<Rightarrow> custom_name e);
             said = (if name \<noteq> None \<and> name \<noteq> Some []
                     then [Announce (''Detected '' @ the name)] else []);
             (trace, n', st'') = monitor_networks env now rest n st
         in (said @ trace, n', st'')))"

definition monitor_cycle ::
  "(nat \<Rightarrow> surroundings) \<Rightarrow> nat \<Rightarrow> scan_outcome \<Rightarrow> nat \<Rightarrow> monitor_state
     \<Rightarrow> action list \<times> nat \<times> monitor_state" where
  "monitor_cycle env now r n st = monitor_networks env now (scan_networks r) n st"

section \<open>A notion used in the proofs\<close>

text \<open>
  What one entry of the scan makes \<^verbatim>\<open>analyze_network_changes\<close> announce, given the known
  state as it was before the first loop.
\<close>

definition visit :: "networks \<Rightarrow> string \<times> netdata \<Rightarrow> event list" where
  "visit known p = (case map_of known (fst p) of
       None \<Rightarrow> [Appeared (fst p) (signal (snd p))]
     | Some stored \<Rightarrow> if signal (snd p) > signal stored + 20
          then [Strengthened (fst p) (signal stored) (signal (snd p))] else [])"

section \<open>Properties of the dictionary operations\<close>

lemma map_of_dict_set: "map_of (dict_set k v d) = (map_of d)(k \<mapsto> v)"
  by (induction d) (auto simp: fun_eq_iff)

lemma keys_dict_set: "set (map fst (dict_set k v d)) = insert k (set (map fst d))"
  by (induction d) auto

lemma distinct_dict_set: "distinct (map fst d) \<Longrightarrow> distinct (map fst (dict_set k v d))"
  by (induction d) (auto simp: keys_dict_set[simplified])

lemma dict_set_same: "map_of d k = Some v \<Longrightarrow> dict_set k v d = d"
  by (induction d) (auto split: if_splits)


section \<open>The two loops of analyze\_network\_changes\<close>

lemma visit_cong: "map_of known (fst p) = map_of known' (fst p) \<Longrightarrow> visit known p = visit known' p"
  by (simp add: visit_def)

lemma cns_events:
  "distinct (map fst current) \<Longrightarrow>
   fst (check_new_or_stronger current known) = concat (map (visit known) current)"
proof (induction current arbitrary: known)
  case Nil
  then show ?case by simp
next
  case (Cons p rest)
  obtain k data where p: "p = (k, data)" by (cases p)
  from Cons.prems p have nk: "k \<notin> fst ` set rest" and d: "distinct (map fst rest)" by auto
  have same: "\<And>known' v. map (visit (dict_set k v known)) rest = map (visit known) rest"
    using nk by (intro map_cong refl visit_cong) (auto simp: map_of_dict_set)
  have head: "fst (check_new_or_stronger (p # rest) known) =
      visit known p @ fst (check_new_or_stronger rest
        (dict_set k (case map_of known k of None \<Rightarrow> data
                     | Some stored \<Rightarrow> stored\<lparr>signal := signal data\<rparr>) known))"
    by (simp add: p dict_get_def visit_def Let_def split_beta split: option.splits)
  show ?case
    unfolding head Cons.IH[OF d] same by simp
qed

lemma cns_lookup:
  "distinct (map fst current) \<Longrightarrow>
   map_of (snd (check_new_or_stronger current known)) k =
     (case map_of current k of
        None \<Rightarrow> map_of known k
      | Some data \<Rightarrow> (case map_of known k of None \<Rightarrow> Some data
                      | Some stored \<Rightarrow> Some (stored\<lparr>signal := signal data\<rparr>)))"
proof (induction current arbitrary: known)
  case Nil
  then show ?case by simp
next
  case (Cons p rest)
  obtain k' data where p: "p = (k', data)" by (cases p)
  from Cons.prems p have nk: "k' \<notin> fst ` set rest" and d: "distinct (map fst rest)" by auto
  from nk have none: "map_of rest k' = None" by (simp add: map_of_eq_None_iff)
  show ?case
    using Cons.IH[OF d] none
    by (auto simp add: p dict_get_def map_of_dict_set Let_def split_beta split: option.splits)
qed

lemma cns_keys:
  "set (map fst (snd (check_new_or_stronger current known))) = set (map fst known) \<union> set (map fst current)"
proof (induction current arbitrary: known)
  case Nil
  then show ?case by simp
next
  case (Cons p rest)
  obtain k' data where p: "p = (k', data)" by (cases p)
  show ?case
    using Cons.IH
    by (auto simp add: p dict_get_def keys_dict_set[simplified] Let_def split_beta split: option.splits)
qed

lemma cns_distinct:
  "distinct (map fst known) \<Longrightarrow> distinct (map fst (snd (check_new_or_stronger current known)))"
proof (induction current arbitrary: known)
  case Nil
  then show ?case by simp
next
  case (Cons p rest)
  obtain k' data where p: "p = (k', data)" by (cases p)
  show ?case
    using Cons.IH Cons.prems
    by (auto simp add: p dict_get_def distinct_dict_set Let_def split_beta split: option.splits)
qed

lemma cd_events:
  "fst (check_disappeared ks current known) =
     map Disappeared (filter (\<lambda>k. k \<notin> set (dict_keys current)) ks)"
  by (induction ks arbitrary: known) (auto simp: Let_def split_beta)

lemma cd_state:
  "snd (check_disappeared ks current known) =
     filter (\<lambda>p. \<not> (fst p \<in> set ks \<and> fst p \<notin> set (dict_keys current))) known"
proof (induction ks arbitrary: known)
  case Nil
  then show ?case by simp
next
  case (Cons k ks)
  show ?case using Cons.IH
    by (auto simp: dict_del_def Let_def split_beta intro!: filter_cong)
qed

subsection \<open>The events about one key\<close>

lemma events_for_visit:
  "events_for k (visit known p) = (if fst p = k then visit known p else [])"
  by (auto simp: events_for_def visit_def split: option.splits)

lemma events_for_append: "events_for k (xs @ ys) = events_for k xs @ events_for k ys"
  by (simp add: events_for_def)

lemma events_for_scan:
  "distinct (map fst current) \<Longrightarrow>
   events_for k (concat (map (visit known) current)) =
     (case map_of current k of None \<Rightarrow> [] | Some data \<Rightarrow> visit known (k, data))"
proof (induction current)
  case Nil
  then show ?case by (simp add: events_for_def)
next
  case (Cons p rest)
  obtain k' data where p: "p = (k', data)" by (cases p)
  from Cons.prems p have "map_of rest k' = None" by (simp add: map_of_eq_None_iff)
  with Cons show ?case
    by (simp add: p events_for_append events_for_visit)
qed

lemma events_for_gone:
  "distinct ks \<Longrightarrow>
   events_for k (map Disappeared (filter P ks)) = (if k \<in> set ks \<and> P k then [Disappeared k] else [])"
  by (induction ks) (auto simp: events_for_def)

lemma events_for_analyze:
  assumes "distinct (dict_keys known)" and "distinct (dict_keys current)"
  shows "events_for k (fst (analyze_network_changes known current)) =
     (case (dict_get known k, dict_get current k) of
        (None, None) \<Rightarrow> []
      | (None, Some data) \<Rightarrow> [Appeared k (signal data)]
      | (Some stored, None) \<Rightarrow> [Disappeared k]
      | (Some stored, Some data) \<Rightarrow>
          if signal data > signal stored + 20
          then [Strengthened k (signal stored) (signal data)] else [])"
proof -
  let ?r = "check_new_or_stronger current known"
  have dk: "distinct (map fst known)" and dc: "distinct (map fst current)"
    using assms by (simp_all add: dict_keys_def)
  have split: "fst (analyze_network_changes known current) =
      fst ?r @ fst (check_disappeared (dict_keys (snd ?r)) current (snd ?r))"
    by (simp add: analyze_network_changes_def Let_def split_beta)
  have first: "events_for k (fst ?r) =
      (case map_of current k of None \<Rightarrow> [] | Some data \<Rightarrow> visit known (k, data))"
    by (simp add: cns_events[OF dc] events_for_scan[OF dc])
  have "distinct (dict_keys (snd ?r))"
    using cns_distinct[OF dk] by (simp add: dict_keys_def)
  then have second: "events_for k (fst (check_disappeared (dict_keys (snd ?r)) current (snd ?r))) =
      (if k \<in> set (map fst known) \<and> k \<notin> set (map fst current) then [Disappeared k] else [])"
    using cns_keys[of current known]
    by (auto simp add: cd_events events_for_gone dict_keys_def)
  have in_known: "k \<in> set (map fst known) \<longleftrightarrow> map_of known k \<noteq> None"
    by (simp add: map_of_eq_None_iff)
  have in_cur: "k \<in> set (map fst current) \<longleftrightarrow> map_of current k \<noteq> None"
    by (simp add: map_of_eq_None_iff)
  show ?thesis
    unfolding split events_for_append first second in_known in_cur
    by (simp add: dict_get_def visit_def split: option.splits)
qed

subsection \<open>The state after the analysis\<close>

lemma analyze_state:
  "snd (analyze_network_changes known current) =
     filter (\<lambda>p. fst p \<in> set (map fst current)) (snd (check_new_or_stronger current known))"
  by (auto simp add: analyze_network_changes_def Let_def split_beta cd_state dict_keys_def
      intro!: filter_cong)

lemma keys_filter:
  "set (map fst (filter (\<lambda>p. fst p \<in> A) d)) = set (map fst d) \<inter> A"
  by (induction d) auto

lemma analyze_keys:
  "set (map fst (snd (analyze_network_changes known current))) = set (map fst current)"
  unfolding analyze_state keys_filter cns_keys by blast

lemma analyze_distinct:
  "distinct (dict_keys known) \<Longrightarrow>
   distinct (dict_keys (snd (analyze_network_changes known current)))"
  unfolding analyze_state dict_keys_def
  by (intro distinct_map_filter cns_distinct)

lemma map_of_filter_key:
  "map_of (filter (\<lambda>p. fst p \<in> A) d) k = (if k \<in> A then map_of d k else None)"
  by (induction d) auto

lemma analyze_lookup:
  assumes "distinct (map fst current)" and "map_of current k = Some data"
  shows "\<exists>stored. map_of (snd (analyze_network_changes known current)) k = Some stored
           \<and> signal stored = signal data"
proof -
  from assms(2) have "k \<in> set (map fst current)"
    by (metis map_of_eq_None_iff option.distinct(1) set_map)
  then have "map_of (snd (analyze_network_changes known current)) k =
      map_of (snd (check_new_or_stronger current known)) k"
    unfolding analyze_state map_of_filter_key by simp
  also have "\<dots> = (case map_of known k of None \<Rightarrow> Some data
                      | Some stored \<Rightarrow> Some (stored\<lparr>signal := signal data\<rparr>))"
    unfolding cns_lookup[OF assms(1)] using assms(2) by simp
  finally show ?thesis by (simp split: option.splits)
qed

lemma cns_settled:
  "\<forall>p \<in> set current. \<exists>stored. map_of known (fst p) = Some stored \<and> signal stored = signal (snd p)
   \<Longrightarrow> check_new_or_stronger current known = ([], known)"
proof (induction current)
  case Nil
  then show ?case by simp
next
  case (Cons p rest)
  obtain k data where p: "p = (k, data)" by (cases p)
  from Cons.prems p obtain stored where st: "map_of known k = Some stored" "signal stored = signal data"
    by auto
  have "stored\<lparr>signal := signal data\<rparr> = stored" using st(2) by simp
  then have "dict_set k (stored\<lparr>signal := signal data\<rparr>) known = known"
    using st(1) by (simp add: dict_set_same)
  with Cons st show ?case
    by (simp add: p dict_get_def)
qed

lemma cd_settled:
  "set ks \<subseteq> set (dict_keys current) \<Longrightarrow> check_disappeared ks current known = ([], known)"
  by (induction ks) auto

lemma analyze_settled:
  assumes "distinct (map fst current)"
  shows "analyze_network_changes (snd (analyze_network_changes known current)) current =
           ([], snd (analyze_network_changes known current))"
proof -
  let ?K = "snd (analyze_network_changes known current)"
  have "\<forall>p \<in> set current. \<exists>stored. map_of ?K (fst p) = Some stored \<and> signal stored = signal (snd p)"
  proof
    fix p assume "p \<in> set current"
    with assms have "map_of current (fst p) = Some (snd p)" by simp
    from analyze_lookup[OF assms this] show "\<exists>stored. map_of ?K (fst p) = Some stored \<and> signal stored = signal (snd p)" .
  qed
  then have 1: "check_new_or_stronger current ?K = ([], ?K)" by (rule cns_settled)
  have 2: "check_disappeared (dict_keys ?K) current ?K = ([], ?K)"
    by (rule cd_settled) (simp add: dict_keys_def analyze_keys[simplified])
  show ?thesis
    unfolding analyze_network_changes_def[of ?K current] 1 using 2 by simp
qed

section \<open>The loop of monitor\<close>

lemma dict_keys_dict_set: "set (dict_keys (dict_set k v d)) = insert k (set (dict_keys d))"
  by (simp add: dict_keys_def keys_dict_set[simplified])

lemma dict_get_dict_set: "dict_get (dict_set k v d) k' = (if k' = k then Some v else dict_get d k')"
  by (simp add: dict_get_def map_of_dict_set)

lemma dict_get_Some_key: "dict_get d k = Some v \<Longrightarrow> k \<in> set (dict_keys d)"
  unfolding dict_get_def dict_keys_def
  by (metis map_of_eq_None_iff option.distinct(1) set_map)

lemma prompt_keys:
  "set (dict_keys (known_networks (snd (prompt_for_name e now s b st)))) \<subseteq>
     insert b (set (dict_keys (known_networks st)))"
  by (auto simp: prompt_for_name_def dict_keys_dict_set split: dialog.splits)

lemma prompt_get:
  "b' \<noteq> b \<Longrightarrow>
   dict_get (known_networks (snd (prompt_for_name e now s b st))) b' = dict_get (known_networks st) b'"
  by (auto simp: prompt_for_name_def dict_get_dict_set split: dialog.splits)

lemma prompt_no_name:
  "fst (prompt_for_name e now s b st) = None \<or> fst (prompt_for_name e now s b st) = Some []
   \<Longrightarrow> snd (prompt_for_name e now s b st) = st"
  by (auto simp: prompt_for_name_def split: dialog.splits if_splits)


lemma monitor_keeps_entries:
  "dict_get (known_networks st) b = Some e \<Longrightarrow>
   dict_get (known_networks (snd (snd (monitor_networks env now nets n st)))) b = Some e"
proof (induction nets arbitrary: n st)
  case Nil
  then show ?case by simp
next
  case (Cons net rest)
  show ?case
  proof (cases "ssid net \<noteq> [] \<and> bssid net \<notin> set (dict_keys (known_networks st))")
    case True
    with Cons.prems have "b \<noteq> bssid net" by (auto dest: dict_get_Some_key)
    then have "dict_get (known_networks (snd (prompt_for_name (env n) now (ssid net) (bssid net) st))) b = Some e"
      using Cons.prems by (simp add: prompt_get)
    from Cons.IH[OF this] True show ?thesis by (simp add: Let_def split_beta)
  next
    case False
    with Cons.IH[OF Cons.prems] show ?thesis by (auto simp add: Let_def split_beta)
  qed
qed

lemma monitor_detects:
  assumes "net \<in> set nets" and "ssid net \<noteq> []"
    and "dict_get (known_networks st) (bssid net) = Some e"
    and "custom_name e = Some label" and "label \<noteq> []"
  shows "Announce (''Detected '' @ label) \<in> set (fst (monitor_networks env now nets n st))"
  using assms
proof (induction nets arbitrary: n st)
  case Nil
  then show ?case by simp
next
  case (Cons h rest)
  show ?case
  proof (cases "h = net")
    case True
    with Cons.prems have "bssid h \<in> set (dict_keys (known_networks st))"
      by (auto dest: dict_get_Some_key)
    with True Cons.prems show ?thesis by (simp add: Let_def split_beta)
  next
    case False
    with Cons.prems have in_rest: "net \<in> set rest" by simp
    show ?thesis
    proof (cases "ssid h \<noteq> [] \<and> bssid h \<notin> set (dict_keys (known_networks st))")
      case True
      with Cons.prems have "bssid net \<noteq> bssid h" by (auto dest: dict_get_Some_key)
      then have "dict_get (known_networks (snd (prompt_for_name (env n) now (ssid h) (bssid h) st))) (bssid net) = Some e"
        using Cons.prems by (simp add: prompt_get)
      from Cons.IH[OF in_rest Cons.prems(2) this Cons.prems(4,5)] True
      show ?thesis by (simp add: Let_def split_beta)
    next
      case False
      with Cons.IH[OF in_rest Cons.prems(2,3,4,5)] show ?thesis
        by (auto simp add: Let_def split_beta)
    qed
  qed
qed

lemma monitor_prompts_unknown:
  assumes "net \<in> set nets" and "ssid net \<noteq> []"
    and "bssid net \<notin> set (dict_keys (known_networks st))"
  shows "Announce ''New signal detected'' \<in> set (fst (monitor_networks env now nets n st))
       \<and> (\<exists>s. Prompt s (bssid net) \<in> set (fst (monitor_networks env now nets n st)))"
  using assms
proof (induction nets arbitrary: n st)
  case Nil
  then show ?case by simp
next
  case (Cons h rest)
  show ?case
  proof (cases "ssid h \<noteq> [] \<and> bssid h \<notin> set (dict_keys (known_networks st))")
    case new: True
    show ?thesis
    proof (cases "bssid h = bssid net")
      case True
      with new show ?thesis by (auto simp add: Let_def split_beta)
    next
      case False
      with Cons.prems have in_rest: "net \<in> set rest" by auto
      have "bssid net \<notin> set (dict_keys (known_networks (snd (prompt_for_name (env n) now (ssid h) (bssid h) st))))"
        using prompt_keys[of "env n" now "ssid h" "bssid h" st] False Cons.prems(3) by auto
      from Cons.IH[OF in_rest Cons.prems(2) this] new show ?thesis
        by (auto simp add: Let_def split_beta)
    qed
  next
    case False
    with Cons.prems have "h \<noteq> net" by auto
    with Cons.prems have in_rest: "net \<in> set rest" by auto
    from Cons.IH[OF in_rest Cons.prems(2,3)] False show ?thesis
      by (auto simp add: Let_def split_beta)
  qed
qed

lemma monitor_keys_grow:
  "set (dict_keys (known_networks st)) \<subseteq>
   set (dict_keys (known_networks (snd (snd (monitor_networks env now nets n st)))))"
proof
  fix b assume "b \<in> set (dict_keys (known_networks st))"
  then obtain e where "dict_get (known_networks st) b = Some e"
    unfolding dict_get_def dict_keys_def
    by (metis map_of_eq_None_iff not_Some_eq set_map)
  from monitor_keeps_entries[OF this]
  show "b \<in> set (dict_keys (known_networks (snd (snd (monitor_networks env now nets n st)))))"
    by (rule dict_get_Some_key)
qed

lemma monitor_unchanged:
  "\<forall>m s b st'. fst (prompt_for_name (env m) now s b st') = None
              \<or> fst (prompt_for_name (env m) now s b st') = Some [] \<Longrightarrow>
   snd (snd (monitor_networks env now nets n st)) = st"
proof (induction nets arbitrary: n)
  case Nil
  then show ?case by simp
next
  case (Cons h rest)
  have "snd (prompt_for_name (env n) now (ssid h) (bssid h) st) = st"
    using Cons.prems by (intro prompt_no_name) blast
  with Cons.IH[OF Cons.prems] show ?case
    by (simp add: Let_def split_beta)
qed

section \<open>The keys of a scan\<close>




lemma analyze_empty_scan:
  "analyze_network_changes known [] = (map Disappeared (dict_keys known), [])"
proof -
  have "fst (analyze_network_changes known []) = map Disappeared (dict_keys known)"
    by (simp add: analyze_network_changes_def cd_events dict_keys_def)
  moreover have "snd (analyze_network_changes known []) = []"
    by (simp add: analyze_state)
  ultimately show ?thesis by (simp add: prod_eq_iff)
qed

section \<open>The names of a scan and the cache after a turn\<close>




lemma monitor_keys_bound:
  "set (dict_keys (known_networks (snd (snd (monitor_networks env now nets n st))))) \<subseteq>
   set (dict_keys (known_networks st)) \<union> set (map bssid (filter (\<lambda>net. ssid net \<noteq> []) nets))"
proof (induction nets arbitrary: n st)
  case Nil
  then show ?case by simp
next
  case (Cons h rest)
  show ?case
  proof (cases "ssid h \<noteq> [] \<and> bssid h \<notin> set (dict_keys (known_networks st))")
    case True
    let ?st' = "snd (prompt_for_name (env n) now (ssid h) (bssid h) st)"
    have "set (dict_keys (known_networks (snd (snd (monitor_networks env now rest (Suc n) ?st'))))) \<subseteq>
       set (dict_keys (known_networks ?st')) \<union> set (map bssid (filter (\<lambda>net. ssid net \<noteq> []) rest))"
      by (rule Cons.IH)
    with prompt_keys[of "env n" now "ssid h" "bssid h" st] True show ?thesis
      by (auto simp add: Let_def split_beta)
  next
    case False
    with Cons.IH[of n st] show ?thesis by (auto simp add: Let_def split_beta)
  qed
qed

lemma prompt_accepted:
  assumes "db_writable e" and "dialog_result e = Entered name" and "name \<noteq> []"
    and "b \<notin> set (map fst (db st))"
  shows "prompt_for_name e now s b st =
     (Some name, st\<lparr>db := db st @ [(b, s, Some name, now, now)],
        known_networks := dict_set b \<lparr>known_ssid = s, custom_name = Some name\<rparr> (known_networks st)\<rparr>)"
  using assms by (simp add: prompt_for_name_def)

lemma monitor_all_named:
  assumes "\<forall>m. db_writable (env m) \<and> (\<exists>name. name \<noteq> [] \<and> dialog_result (env m) = Entered name)"
    and "set (map fst (db st)) \<subseteq> set (dict_keys (known_networks st))"
  shows "set (dict_keys (known_networks (snd (snd (monitor_networks env now nets n st))))) =
         set (dict_keys (known_networks st)) \<union> set (map bssid (filter (\<lambda>net. ssid net \<noteq> []) nets))"
  using assms(2)
proof (induction nets arbitrary: n st)
  case Nil
  then show ?case by simp
next
  case (Cons h rest)
  show ?case
  proof (cases "ssid h \<noteq> [] \<and> bssid h \<notin> set (dict_keys (known_networks st))")
    case True
    from assms(1) obtain name where e: "db_writable (env n)" "name \<noteq> []"
      "dialog_result (env n) = Entered name" by blast
    from True Cons.prems have nb: "bssid h \<notin> set (map fst (db st))" by auto
    let ?st' = "st\<lparr>db := db st @ [(bssid h, ssid h, Some name, now, now)],
        known_networks := dict_set (bssid h) \<lparr>known_ssid = ssid h, custom_name = Some name\<rparr> (known_networks st)\<rparr>"
    have p: "prompt_for_name (env n) now (ssid h) (bssid h) st = (Some name, ?st')"
      using e nb by (intro prompt_accepted)
    have inv: "set (map fst (db ?st')) \<subseteq> set (dict_keys (known_networks ?st'))"
      using Cons.prems by (auto simp add: dict_keys_dict_set)
    have k: "set (dict_keys (known_networks ?st')) = insert (bssid h) (set (dict_keys (known_networks st)))"
      by (simp add: dict_keys_dict_set)
    from Cons.IH[OF inv, of "Suc n"] True p k show ?thesis
      by (auto simp add: Let_def split_beta)
  next
    case False
    from Cons.IH[OF Cons.prems, of n] False show ?thesis
      by (auto simp add: Let_def split_beta)
  qed
qed

lemma prompt_origin:
  "Prompt s b \<in> set (fst (monitor_networks env now nets n st)) \<Longrightarrow>
   \<exists>net \<in> set nets. bssid net = b \<and> ssid net = s \<and> s \<noteq> []"
proof (induction nets arbitrary: n st)
  case Nil
  then show ?case by simp
next
  case (Cons h rest)
  show ?case
  proof (cases "ssid h = []")
    case True
    with Cons.prems have "Prompt s b \<in> set (fst (monitor_networks env now rest n st))" by simp
    from Cons.IH[OF this] show ?thesis by auto
  next
    case False
    show ?thesis
    proof (cases "bssid h \<notin> set (dict_keys (known_networks st))")
      case True
      with False Cons.prems have "(s = ssid h \<and> b = bssid h) \<or>
         Prompt s b \<in> set (fst (monitor_networks env now rest (Suc n)
            (snd (prompt_for_name (env n) now (ssid h) (bssid h) st))))"
        by (auto simp add: Let_def split_beta split: if_splits)
      then show ?thesis using False Cons.IH by auto
    next
      case known: False
      with False Cons.prems have "Prompt s b \<in> set (fst (monitor_networks env now rest n st))"
        by (auto simp add: Let_def split_beta split: if_splits)
      from Cons.IH[OF this] show ?thesis by auto
    qed
  qed
qed

section \<open>The claims\<close>

text \<open>
  C1. For every known state and every scan, the diff announces exactly one Appeared event
  for each key of the scan that the known state does not have, exactly one Disappeared
  event for each key of the known state that the scan does not have, exactly one
  StrengthenedSignificantly event for each key of both whose new signal exceeds the old one
  by more than the threshold, and nothing for any other key. The events about a key \<open>k\<close>
  are the sublist \<open>events_for k\<close> of all events; both dictionaries have pairwise different
  keys, as every Python dictionary has (\<open>get_networks_keys\<close> and \<open>analyze_distinct\<close>
  show it for the scan and for the known state of the next turn).
\<close>

theorem diff_one_event_per_identifier:
  assumes "distinct (dict_keys known)" and "distinct (dict_keys current)"
  shows "events_for k (fst (analyze_network_changes known current)) =
     (case (dict_get known k, dict_get current k) of
        (None, None) \<Rightarrow> []
      | (None, Some data) \<Rightarrow> [Appeared k (signal data)]
      | (Some stored, None) \<Rightarrow> [Disappeared k]
      | (Some stored, Some data) \<Rightarrow>
          if signal data > signal stored + 20
          then [Strengthened k (signal stored) (signal data)] else [])"
  using assms by (rule events_for_analyze)

theorem diff_one_event_per_identifier_witness:
  "distinct (dict_keys [(''Home'', \<lparr>signal = 45, first_seen = 1\<rparr>), (''Cafe'', \<lparr>signal = 30, first_seen = 1\<rparr>)])
   \<and> distinct (dict_keys [(''Home'', \<lparr>signal = 70, first_seen = 2\<rparr>), (''Guest'', \<lparr>signal = 85, first_seen = 2\<rparr>)])
   \<and> events_for ''Home'' (fst (analyze_network_changes
         [(''Home'', \<lparr>signal = 45, first_seen = 1\<rparr>), (''Cafe'', \<lparr>signal = 30, first_seen = 1\<rparr>)]
         [(''Home'', \<lparr>signal = 70, first_seen = 2\<rparr>), (''Guest'', \<lparr>signal = 85, first_seen = 2\<rparr>)]))
       = [Strengthened ''Home'' 45 70]
   \<and> events_for ''Guest'' (fst (analyze_network_changes
         [(''Home'', \<lparr>signal = 45, first_seen = 1\<rparr>), (''Cafe'', \<lparr>signal = 30, first_seen = 1\<rparr>)]
         [(''Home'', \<lparr>signal = 70, first_seen = 2\<rparr>), (''Guest'', \<lparr>signal = 85, first_seen = 2\<rparr>)]))
       = [Appeared ''Guest'' 85]
   \<and> events_for ''Cafe'' (fst (analyze_network_changes
         [(''Home'', \<lparr>signal = 45, first_seen = 1\<rparr>), (''Cafe'', \<lparr>signal = 30, first_seen = 1\<rparr>)]
         [(''Home'', \<lparr>signal = 70, first_seen = 2\<rparr>), (''Guest'', \<lparr>signal = 85, first_seen = 2\<rparr>)]))
       = [Disappeared ''Cafe'']"
proof -
  let ?known = "[(''Home'', \<lparr>signal = 45, first_seen = 1\<rparr>), (''Cafe'', \<lparr>signal = 30, first_seen = 1\<rparr>)]"
  let ?current = "[(''Home'', \<lparr>signal = 70, first_seen = 2\<rparr>), (''Guest'', \<lparr>signal = 85, first_seen = 2\<rparr>)]"
  have dk: "distinct (dict_keys ?known)" by (simp add: dict_keys_def)
  have dc: "distinct (dict_keys ?current)" by (simp add: dict_keys_def)
  show ?thesis
    using dk dc diff_one_event_per_identifier[OF dk dc, of "''Home''"]
      diff_one_event_per_identifier[OF dk dc, of "''Guest''"]
      diff_one_event_per_identifier[OF dk dc, of "''Cafe''"]
    by (simp add: dict_get_def)
qed

text \<open>
  C2. For a key of both the known state and the scan, the comparison is strict,
  \<^verbatim>\<open>new_signal > old_signal + 20\<close>: an increase of exactly 20 announces nothing about
  the key, an increase of 21 announces that it moves closer.
\<close>

theorem signal_jump_is_strict:
  assumes "distinct (dict_keys known)" and "distinct (dict_keys current)"
    and "dict_get known k = Some stored" and "dict_get current k = Some data"
  shows "events_for k (fst (analyze_network_changes known current)) =
           (if signal data > signal stored + 20
            then [Strengthened k (signal stored) (signal data)] else [])
       \<and> (signal data = signal stored + 20 \<longrightarrow>
            events_for k (fst (analyze_network_changes known current)) = [])
       \<and> (signal data = signal stored + 21 \<longrightarrow>
            events_for k (fst (analyze_network_changes known current)) =
              [Strengthened k (signal stored) (signal stored + 21)])"
  using events_for_analyze[OF assms(1,2), of k] assms(3,4) by simp

theorem signal_jump_is_strict_witness:
  "events_for ''Home'' (fst (analyze_network_changes
       [(''Home'', \<lparr>signal = 45, first_seen = 1\<rparr>)] [(''Home'', \<lparr>signal = 65, first_seen = 2\<rparr>)])) = []
   \<and> events_for ''Home'' (fst (analyze_network_changes
       [(''Home'', \<lparr>signal = 45, first_seen = 1\<rparr>)] [(''Home'', \<lparr>signal = 66, first_seen = 2\<rparr>)]))
       = [Strengthened ''Home'' 45 66]"
proof -
  let ?known = "[(''Home'', \<lparr>signal = 45, first_seen = 1\<rparr>)]"
  let ?at20 = "[(''Home'', \<lparr>signal = 65, first_seen = 2\<rparr>)]"
  let ?at21 = "[(''Home'', \<lparr>signal = 66, first_seen = 2\<rparr>)]"
  have dk: "distinct (dict_keys ?known)" by (simp add: dict_keys_def)
  have d20: "distinct (dict_keys ?at20)" by (simp add: dict_keys_def)
  have d21: "distinct (dict_keys ?at21)" by (simp add: dict_keys_def)
  have gk: "dict_get ?known ''Home'' = Some \<lparr>signal = 45, first_seen = 1\<rparr>"
    by (simp add: dict_get_def)
  have g20: "dict_get ?at20 ''Home'' = Some \<lparr>signal = 65, first_seen = 2\<rparr>"
    by (simp add: dict_get_def)
  have g21: "dict_get ?at21 ''Home'' = Some \<lparr>signal = 66, first_seen = 2\<rparr>"
    by (simp add: dict_get_def)
  show ?thesis
    using signal_jump_is_strict[OF dk d20 gk g20] signal_jump_is_strict[OF dk d21 gk g21]
    by simp
qed

text \<open>
  C3, as the code has it. In the phone detector the keys of the known state after
  \<^verbatim>\<open>analyze_network_changes\<close> are exactly the keys of the latest scan: new keys have been
  added, keys not seen again have been deleted. The cache of the monitor with the database
  is no such live set. A turn of its loop removes no address from it and adds none but
  addresses scanned with a non-empty name; it adds none of them when every dialog yields
  no name, and all of them when every dialog is answered with a name and the table takes
  the rows (every address of the table being in the cache, as after
  \<^verbatim>\<open>load_known_networks\<close>).
\<close>

theorem known_state_and_name_cache:
  "set (dict_keys (snd (analyze_network_changes known current))) = set (dict_keys current)
   \<and> set (dict_keys (known_networks st))
       \<subseteq> set (dict_keys (known_networks (snd (snd (monitor_cycle env now (ScanResults nets) n st)))))
   \<and> set (dict_keys (known_networks (snd (snd (monitor_cycle env now (ScanResults nets) n st)))))
       \<subseteq> set (dict_keys (known_networks st)) \<union> set (map bssid (filter (\<lambda>net. ssid net \<noteq> []) nets))
   \<and> ((\<forall>m s b st'. fst (prompt_for_name (env m) now s b st') = None
                    \<or> fst (prompt_for_name (env m) now s b st') = Some []) \<longrightarrow>
        snd (snd (monitor_cycle env now (ScanResults nets) n st)) = st)
   \<and> ((\<forall>m. db_writable (env m) \<and> (\<exists>name. name \<noteq> [] \<and> dialog_result (env m) = Entered name))
        \<and> set (map fst (db st)) \<subseteq> set (dict_keys (known_networks st)) \<longrightarrow>
        set (dict_keys (known_networks (snd (snd (monitor_cycle env now (ScanResults nets) n st))))) =
          set (dict_keys (known_networks st)) \<union> set (map bssid (filter (\<lambda>net. ssid net \<noteq> []) nets)))"
proof (intro conjI impI)
  show "set (dict_keys (snd (analyze_network_changes known current))) = set (dict_keys current)"
    unfolding dict_keys_def by (rule analyze_keys)
next
  show "set (dict_keys (known_networks st))
       \<subseteq> set (dict_keys (known_networks (snd (snd (monitor_cycle env now (ScanResults nets) n st)))))"
    unfolding monitor_cycle_def by (rule monitor_keys_grow)
next
  show "set (dict_keys (known_networks (snd (snd (monitor_cycle env now (ScanResults nets) n st)))))
       \<subseteq> set (dict_keys (known_networks st)) \<union> set (map bssid (filter (\<lambda>net. ssid net \<noteq> []) nets))"
    unfolding monitor_cycle_def scan_networks_def scan_outcome.case by (rule monitor_keys_bound)
next
  assume "\<forall>m s b st'. fst (prompt_for_name (env m) now s b st') = None
                    \<or> fst (prompt_for_name (env m) now s b st') = Some []"
  then show "snd (snd (monitor_cycle env now (ScanResults nets) n st)) = st"
    unfolding monitor_cycle_def by (rule monitor_unchanged)
next
  assume a: "(\<forall>m. db_writable (env m) \<and> (\<exists>name. name \<noteq> [] \<and> dialog_result (env m) = Entered name))
        \<and> set (map fst (db st)) \<subseteq> set (dict_keys (known_networks st))"
  show "set (dict_keys (known_networks (snd (snd (monitor_cycle env now (ScanResults nets) n st))))) =
          set (dict_keys (known_networks st)) \<union> set (map bssid (filter (\<lambda>net. ssid net \<noteq> []) nets))"
    unfolding monitor_cycle_def scan_networks_def scan_outcome.case
    using a by (intro monitor_all_named) blast+
qed

theorem known_state_and_name_cache_witness:
  "snd (snd (monitor_cycle (\<lambda>m. \<lparr>dialog_result = Cancelled, db_writable = True\<rparr>) 3
       (ScanResults [\<lparr>bssid = ''aa:01'', ssid = ''Home''\<rparr>]) 0
       \<lparr>known_networks = [], db = []\<rparr>)) = \<lparr>known_networks = [], db = []\<rparr>
   \<and> set (dict_keys (known_networks (snd (snd (monitor_cycle
       (\<lambda>m. \<lparr>dialog_result = Entered ''Porch'', db_writable = True\<rparr>) 3
       (ScanResults [\<lparr>bssid = ''aa:01'', ssid = ''Home''\<rparr>, \<lparr>bssid = ''aa:02'', ssid = ''''\<rparr>]) 0
       \<lparr>known_networks = [], db = []\<rparr>))))) = {''aa:01''}"
proof -
  let ?no = "\<lambda>m::nat. \<lparr>dialog_result = Cancelled, db_writable = True\<rparr>"
  let ?yes = "\<lambda>m::nat. \<lparr>dialog_result = Entered ''Porch'', db_writable = True\<rparr>"
  let ?st = "\<lparr>known_networks = [], db = []\<rparr>"
  let ?a = "\<lparr>bssid = ''aa:01'', ssid = ''Home''\<rparr>"
  let ?b = "\<lparr>bssid = ''aa:02'', ssid = ''''\<rparr>"
  have 1: "snd (snd (monitor_cycle ?no 3 (ScanResults [?a]) 0 ?st)) = ?st"
    by (rule known_state_and_name_cache[THEN conjunct2, THEN conjunct2, THEN conjunct2, THEN conjunct1, rule_format])
       (simp add: prompt_for_name_def)
  have 2: "set (dict_keys (known_networks (snd (snd (monitor_cycle ?yes 3 (ScanResults [?a, ?b]) 0 ?st))))) =
      set (dict_keys (known_networks ?st)) \<union> set (map bssid (filter (\<lambda>net. ssid net \<noteq> []) [?a, ?b]))"
    by (rule known_state_and_name_cache[THEN conjunct2, THEN conjunct2, THEN conjunct2, THEN conjunct2, rule_format])
       (simp add: dict_keys_def)
  have 3: "set (map bssid (filter (\<lambda>net. ssid net \<noteq> []) [?a, ?b])) = {''aa:01''}"
    by simp
  from 1 2 3 show ?thesis by (simp add: dict_keys_def)
qed

text \<open>
  The claim itself cites the loop of \<^verbatim>\<open>monitor\<close> as well. There a cache holding one
  address, a scan of another one and a cancelled dialog leave the cache with the old
  address, which the scan does not have, and without the new one, which it has.
\<close>

theorem name_cache_counterexample:
  "monitor_cycle (\<lambda>m. \<lparr>dialog_result = Cancelled, db_writable = True\<rparr>) 3
       (ScanResults [\<lparr>bssid = ''aa:01'', ssid = ''Home''\<rparr>]) 0
       \<lparr>known_networks = [(''zz:09'', \<lparr>known_ssid = ''Shed'', custom_name = Some ''Shed''\<rparr>)],
          db = [(''zz:09'', ''Shed'', Some ''Shed'', 1, 1)]\<rparr> =
     ([Announce ''New signal detected'', Prompt ''Home'' ''aa:01''], 1,
      \<lparr>known_networks = [(''zz:09'', \<lparr>known_ssid = ''Shed'', custom_name = Some ''Shed''\<rparr>)],
          db = [(''zz:09'', ''Shed'', Some ''Shed'', 1, 1)]\<rparr>)"
  by code_simp

text \<open>
  C4, as the code has it. When the scan command fails with \<^verbatim>\<open>CalledProcessError\<close>,
  \<^verbatim>\<open>get_networks\<close> prints the failure and returns the empty dictionary, and the turn
  does not raise. The analysis then runs on the empty scan: every known network is
  announced as out of range, in the order of the known state, and the known state is left
  empty.
\<close>

theorem scan_failure_empties_known_state:
  "monitoring_cycle now (CalledProcessError e) known =
     ([''Error scanning networks: '' @ e], Inr (map Disappeared (dict_keys known), []))"
  by (simp add: monitoring_cycle_def get_networks_def analyze_empty_scan)

text \<open>
  The claim itself asks that a failed scan leave the known state alone and announce no
  disappearance. One known network and a failing scan show otherwise.
\<close>

theorem scan_failure_counterexample:
  "monitoring_cycle 7 (CalledProcessError ''netsh failed'')
     [(''Home'', \<lparr>signal = 45, first_seen = 1\<rparr>)] =
   ([''Error scanning networks: netsh failed''], Inr ([Disappeared ''Home''], []))"
  by (simp add: monitoring_cycle_def get_networks_def analyze_network_changes_def
      dict_keys_def dict_del_def)

text \<open>
  C5, as the code has it. Nothing clamps the signal: for every key of the scan the known
  state afterwards holds the scanned signal as it is, whatever integer it is, and for a
  key known before, the jump is decided on the two values as they are. The analysis is a
  total function of the two dictionaries.
\<close>

theorem signal_is_not_clamped:
  assumes "distinct (dict_keys known)" and "distinct (dict_keys current)"
    and "dict_get current k = Some data"
  shows "(\<exists>kept. dict_get (snd (analyze_network_changes known current)) k = Some kept
            \<and> signal kept = signal data)
       \<and> (\<forall>stored. dict_get known k = Some stored \<longrightarrow>
            events_for k (fst (analyze_network_changes known current)) =
              (if signal data > signal stored + 20
               then [Strengthened k (signal stored) (signal data)] else []))"
proof
  from assms(2,3) show "\<exists>kept. dict_get (snd (analyze_network_changes known current)) k = Some kept
            \<and> signal kept = signal data"
    unfolding dict_get_def dict_keys_def by (rule analyze_lookup)
next
  show "\<forall>stored. dict_get known k = Some stored \<longrightarrow>
            events_for k (fst (analyze_network_changes known current)) =
              (if signal data > signal stored + 20
               then [Strengthened k (signal stored) (signal data)] else [])"
    using events_for_analyze[OF assms(1,2), of k] assms(3) by simp
qed

theorem signal_is_not_clamped_witness:
  "dict_get (snd (analyze_network_changes [(''Home'', \<lparr>signal = 85, first_seen = 1\<rparr>)]
       [(''Home'', \<lparr>signal = 150, first_seen = 2\<rparr>), (''Cafe'', \<lparr>signal = - 5, first_seen = 2\<rparr>)])) ''Home''
     = Some \<lparr>signal = 150, first_seen = 1\<rparr>
   \<and> events_for ''Home'' (fst (analyze_network_changes [(''Home'', \<lparr>signal = 85, first_seen = 1\<rparr>)]
       [(''Home'', \<lparr>signal = 150, first_seen = 2\<rparr>), (''Cafe'', \<lparr>signal = - 5, first_seen = 2\<rparr>)]))
     = [Strengthened ''Home'' 85 150]"
proof -
  let ?known = "[(''Home'', \<lparr>signal = 85, first_seen = 1\<rparr>)]"
  let ?current = "[(''Home'', \<lparr>signal = 150, first_seen = 2\<rparr>), (''Cafe'', \<lparr>signal = - 5, first_seen = 2\<rparr>)]"
  have dk: "distinct (dict_keys ?known)" by (simp add: dict_keys_def)
  have dc: "distinct (dict_keys ?current)" by (simp add: dict_keys_def)
  have g: "dict_get ?current ''Home'' = Some \<lparr>signal = 150, first_seen = 2\<rparr>"
    by (simp add: dict_get_def)
  have state: "snd (analyze_network_changes ?known ?current) =
     [(''Home'', \<lparr>signal = 150, first_seen = 1\<rparr>), (''Cafe'', \<lparr>signal = - 5, first_seen = 2\<rparr>)]"
    by (simp add: analyze_network_changes_def dict_get_def dict_keys_def dict_del_def)
  show ?thesis
    using signal_is_not_clamped[OF dk dc g] state by (simp add: dict_get_def)
qed

text \<open>
  The claim itself asks for clamping to 0..100 before the comparison. A scan line with
  150 percent for a network known at 85 is announced as a jump from 85 to 150 and stored as 150;
  clamped to 100 it would not exceed 85 + 20.
\<close>

theorem clamp_counterexample:
  "monitoring_cycle 7
     (Completed (''SSID 1 : Home'' @ [CHR 0x0A] @ ''    BSSID 1 : aa:bb:cc:dd:ee:01''
                 @ [CHR 0x0A] @ ''         Signal : 150%''))
     [(''Home'', \<lparr>signal = 85, first_seen = 1\<rparr>)] =
   ([], Inr ([Strengthened ''Home'' 85 150], [(''Home'', \<lparr>signal = 150, first_seen = 1\<rparr>)]))"
  by code_simp







text \<open>
  C8. Analysing the same scan a second time leaves the known state as the first analysis
  left it.
\<close>

theorem updated_state_idempotent:
  assumes "distinct (dict_keys current)"
  shows "snd (analyze_network_changes (snd (analyze_network_changes known current)) current) =
         snd (analyze_network_changes known current)"
  using assms by (simp add: dict_keys_def analyze_settled)

theorem updated_state_idempotent_witness:
  "distinct (dict_keys [(''Home'', \<lparr>signal = 70, first_seen = 2\<rparr>), (''Guest'', \<lparr>signal = 85, first_seen = 2\<rparr>)])
   \<and> snd (analyze_network_changes (snd (analyze_network_changes
         [(''Home'', \<lparr>signal = 45, first_seen = 1\<rparr>), (''Cafe'', \<lparr>signal = 30, first_seen = 1\<rparr>)]
         [(''Home'', \<lparr>signal = 70, first_seen = 2\<rparr>), (''Guest'', \<lparr>signal = 85, first_seen = 2\<rparr>)]))
         [(''Home'', \<lparr>signal = 70, first_seen = 2\<rparr>), (''Guest'', \<lparr>signal = 85, first_seen = 2\<rparr>)])
     = [(''Home'', \<lparr>signal = 70, first_seen = 1\<rparr>), (''Guest'', \<lparr>signal = 85, first_seen = 2\<rparr>)]"
proof -
  let ?known = "[(''Home'', \<lparr>signal = 45, first_seen = 1\<rparr>), (''Cafe'', \<lparr>signal = 30, first_seen = 1\<rparr>)]"
  let ?current = "[(''Home'', \<lparr>signal = 70, first_seen = 2\<rparr>), (''Guest'', \<lparr>signal = 85, first_seen = 2\<rparr>)]"
  have dc: "distinct (dict_keys ?current)" by (simp add: dict_keys_def)
  have once: "snd (analyze_network_changes ?known ?current) =
      [(''Home'', \<lparr>signal = 70, first_seen = 1\<rparr>), (''Guest'', \<lparr>signal = 85, first_seen = 2\<rparr>)]"
    by (simp add: analyze_network_changes_def dict_get_def dict_keys_def dict_del_def)
  show ?thesis
    using dc updated_state_idempotent[OF dc, of ?known] once by simp
qed

text \<open>
  C9, as the code has it. In every turn of the loop of \<^verbatim>\<open>monitor\<close>, every scanned
  network with a non-empty name whose address is in the cache with a non-empty custom name
  is announced as detected, whatever happened in the turns before; the cache entry is still
  there after the turn, so the next turn announces it again.
\<close>

theorem known_labelled_network_is_announced:
  assumes "net \<in> set nets" and "ssid net \<noteq> []"
    and "dict_get (known_networks st) (bssid net) = Some e"
    and "custom_name e = Some label" and "label \<noteq> []"
  shows "Announce (''Detected '' @ label) \<in> set (fst (monitor_cycle env now (ScanResults nets) n st))
       \<and> dict_get (known_networks (snd (snd (monitor_cycle env now (ScanResults nets) n st))))
           (bssid net) = Some e"
  using monitor_detects[OF assms] monitor_keeps_entries[OF assms(3)]
  by (simp add: monitor_cycle_def scan_networks_def)

theorem known_labelled_network_is_announced_witness:
  "Announce ''Detected Dad'' \<in> set (fst (monitor_cycle
       (\<lambda>n. \<lparr>dialog_result = Cancelled, db_writable = True\<rparr>) 3
       (ScanResults [\<lparr>bssid = ''aa:01'', ssid = ''Home''\<rparr>])
       0 \<lparr>known_networks = [(''aa:01'', \<lparr>known_ssid = ''Home'', custom_name = Some ''Dad''\<rparr>)],
          db = [(''aa:01'', ''Home'', Some ''Dad'', 1, 1)]\<rparr>))"
proof -
  let ?net = "\<lparr>bssid = ''aa:01'', ssid = ''Home''\<rparr>"
  let ?e = "\<lparr>known_ssid = ''Home'', custom_name = Some ''Dad''\<rparr>"
  let ?st = "\<lparr>known_networks = [(''aa:01'', ?e)], db = [(''aa:01'', ''Home'', Some ''Dad'', 1, 1)]\<rparr>"
  have 1: "?net \<in> set [?net]" by simp
  have 2: "ssid ?net \<noteq> []" by simp
  have 3: "dict_get (known_networks ?st) (bssid ?net) = Some ?e" by (simp add: dict_get_def)
  have 4: "custom_name ?e = Some ''Dad''" by simp
  have 5: "''Dad'' \<noteq> []" by simp
  from known_labelled_network_is_announced[OF 1 2 3 4 5] show ?thesis by simp
qed

text \<open>
  The claim itself speaks of every scanned network whose address is in the cache with a
  custom name. A scanned network that advertises an empty name is passed over before the
  cache is looked at, and nothing is announced for it.
\<close>

theorem unnamed_labelled_network_counterexample:
  "monitor_cycle (\<lambda>n. \<lparr>dialog_result = Cancelled, db_writable = True\<rparr>) 3
       (ScanResults [\<lparr>bssid = ''aa:01'', ssid = ''''\<rparr>])
       0 \<lparr>known_networks = [(''aa:01'', \<lparr>known_ssid = ''Home'', custom_name = Some ''Dad''\<rparr>)],
          db = [(''aa:01'', ''Home'', Some ''Dad'', 1, 1)]\<rparr> =
     ([], 0, \<lparr>known_networks = [(''aa:01'', \<lparr>known_ssid = ''Home'', custom_name = Some ''Dad''\<rparr>)],
          db = [(''aa:01'', ''Home'', Some ''Dad'', 1, 1)]\<rparr>)"
  by code_simp

text \<open>
  C10, as the code has it. When \<^verbatim>\<open>prompt_for_name\<close> yields no name for a new address
  (the dialog fails, the user cancels or enters nothing, or the row cannot be written),
  table and cache are as they were. From that state every scan that has the address with
  a non-empty name announces a new signal and asks for the name of that address again; a
  scan that has the address with an empty name only does not ask for it; and a turn in
  which every dialog yields no name leaves the state unchanged once more.
\<close>

theorem declined_prompt_is_repeated:
  assumes "b \<notin> set (dict_keys (known_networks st))"
    and "fst (prompt_for_name e now s b st) = None \<or> fst (prompt_for_name e now s b st) = Some []"
  shows "snd (prompt_for_name e now s b st) = st
       \<and> (\<forall>env' now' nets n' net. net \<in> set nets \<longrightarrow> bssid net = b \<longrightarrow> ssid net \<noteq> [] \<longrightarrow>
            Announce ''New signal detected''
              \<in> set (fst (monitor_cycle env' now' (ScanResults nets) n' st))
            \<and> (\<exists>s'. Prompt s' b
                  \<in> set (fst (monitor_cycle env' now' (ScanResults nets) n' st))))
       \<and> (\<forall>env' now' (nets :: network list) n'.
            (\<forall>net \<in> set nets. bssid net = b \<longrightarrow> ssid net = []) \<longrightarrow>
            (\<forall>s'. Prompt s' b \<notin> set (fst (monitor_cycle env' now' (ScanResults nets) n' st))))
       \<and> (\<forall>env' now' r n'.
            (\<forall>m s' b' st'. fst (prompt_for_name (env' m) now' s' b' st') = None
                        \<or> fst (prompt_for_name (env' m) now' s' b' st') = Some []) \<longrightarrow>
            snd (snd (monitor_cycle env' now' r n' st)) = st)"
proof (intro conjI allI impI)
  from assms(2) show "snd (prompt_for_name e now s b st) = st"
    by (rule prompt_no_name)
next
  fix env' :: "nat \<Rightarrow> surroundings" and now' nets n' and net :: network
  assume "net \<in> set nets" "bssid net = b" "ssid net \<noteq> []"
  with monitor_prompts_unknown[of net nets st env' now' n'] assms(1)
  show "Announce ''New signal detected'' \<in> set (fst (monitor_cycle env' now' (ScanResults nets) n' st))"
    by (simp add: monitor_cycle_def scan_networks_def)
next
  fix env' :: "nat \<Rightarrow> surroundings" and now' nets n' and net :: network
  assume "net \<in> set nets" "bssid net = b" "ssid net \<noteq> []"
  with monitor_prompts_unknown[of net nets st env' now' n'] assms(1)
  show "\<exists>s'. Prompt s' b \<in> set (fst (monitor_cycle env' now' (ScanResults nets) n' st))"
    by (simp add: monitor_cycle_def scan_networks_def)
next
  fix env' :: "nat \<Rightarrow> surroundings" and now' and nets :: "network list" and n' s'
  assume skip: "\<forall>net \<in> set nets. bssid net = b \<longrightarrow> ssid net = []"
  show "Prompt s' b \<notin> set (fst (monitor_cycle env' now' (ScanResults nets) n' st))"
  proof
    assume "Prompt s' b \<in> set (fst (monitor_cycle env' now' (ScanResults nets) n' st))"
    then have "Prompt s' b \<in> set (fst (monitor_networks env' now' nets n' st))"
      by (simp add: monitor_cycle_def scan_networks_def)
    from prompt_origin[OF this] skip show False by auto
  qed
next
  fix env' :: "nat \<Rightarrow> surroundings" and now' r n'
  assume "\<forall>m s' b' st'. fst (prompt_for_name (env' m) now' s' b' st') = None
                        \<or> fst (prompt_for_name (env' m) now' s' b' st') = Some []"
  then show "snd (snd (monitor_cycle env' now' r n' st)) = st"
    unfolding monitor_cycle_def by (rule monitor_unchanged)
qed

theorem declined_prompt_is_repeated_witness:
  "prompt_for_name \<lparr>dialog_result = Cancelled, db_writable = True\<rparr> 3 ''Home'' ''aa:01''
       \<lparr>known_networks = [], db = []\<rparr> = (None, \<lparr>known_networks = [], db = []\<rparr>)
   \<and> monitor_cycle (\<lambda>m. \<lparr>dialog_result = Cancelled, db_writable = True\<rparr>) 4
       (ScanResults [\<lparr>bssid = ''aa:01'', ssid = ''Home''\<rparr>]) 1 \<lparr>known_networks = [], db = []\<rparr> =
     ([Announce ''New signal detected'', Prompt ''Home'' ''aa:01''], 2, \<lparr>known_networks = [], db = []\<rparr>)
   \<and> Announce ''New signal detected'' \<in> set (fst (monitor_cycle
         (\<lambda>m. \<lparr>dialog_result = Cancelled, db_writable = True\<rparr>) 4
         (ScanResults [\<lparr>bssid = ''aa:01'', ssid = ''Home''\<rparr>]) 1 \<lparr>known_networks = [], db = []\<rparr>))
   \<and> Prompt ''Home'' ''aa:01'' \<notin> set (fst (monitor_cycle
         (\<lambda>m. \<lparr>dialog_result = Cancelled, db_writable = True\<rparr>) 4
         (ScanResults [\<lparr>bssid = ''aa:01'', ssid = ''''\<rparr>]) 1 \<lparr>known_networks = [], db = []\<rparr>))
   \<and> snd (snd (monitor_cycle (\<lambda>m. \<lparr>dialog_result = Cancelled, db_writable = True\<rparr>) 4
         (ScanResults [\<lparr>bssid = ''aa:01'', ssid = ''Home''\<rparr>]) 1 \<lparr>known_networks = [], db = []\<rparr>))
       = \<lparr>known_networks = [], db = []\<rparr>"
proof -
  let ?net = "\<lparr>bssid = ''aa:01'', ssid = ''Home''\<rparr>"
  let ?hidden = "\<lparr>bssid = ''aa:01'', ssid = ''''\<rparr>"
  let ?st = "\<lparr>known_networks = [], db = []\<rparr>"
  let ?e = "\<lparr>dialog_result = Cancelled, db_writable = True\<rparr>"
  have 1: "''aa:01'' \<notin> set (dict_keys (known_networks ?st))" by (simp add: dict_keys_def)
  have p: "prompt_for_name ?e 3 ''Home'' ''aa:01'' ?st = (None, ?st)"
    by (simp add: prompt_for_name_def)
  then have 2: "fst (prompt_for_name ?e 3 ''Home'' ''aa:01'' ?st) = None
         \<or> fst (prompt_for_name ?e 3 ''Home'' ''aa:01'' ?st) = Some []" by simp
  have run: "monitor_cycle (\<lambda>m. ?e) 4 (ScanResults [?net]) 1 ?st =
     ([Announce ''New signal detected'', Prompt ''Home'' ''aa:01''], 2, ?st)"
    by (simp add: monitor_cycle_def scan_networks_def prompt_for_name_def dict_keys_def)
  note main = declined_prompt_is_repeated[OF 1 2]
  have a: "Announce ''New signal detected''
      \<in> set (fst (monitor_cycle (\<lambda>m. ?e) 4 (ScanResults [?net]) 1 ?st))"
    by (rule main[THEN conjunct2, THEN conjunct1, rule_format, THEN conjunct1, of ?net]) simp_all
  have h: "Prompt ''Home'' ''aa:01'' \<notin> set (fst (monitor_cycle (\<lambda>m. ?e) 4 (ScanResults [?hidden]) 1 ?st))"
    by (rule main[THEN conjunct2, THEN conjunct2, THEN conjunct1, rule_format]) simp
  have b: "snd (snd (monitor_cycle (\<lambda>m. ?e) 4 (ScanResults [?net]) 1 ?st)) = ?st"
    by (rule main[THEN conjunct2, THEN conjunct2, THEN conjunct2, rule_format])
       (simp add: prompt_for_name_def)
  from p run a h b show ?thesis by simp
qed

text \<open>
  The claim itself speaks of every later turn in which the address is observed. After a
  cancelled dialog, a turn that observes the same address with an empty name announces
  nothing and asks nothing.
\<close>

theorem hidden_declined_network_counterexample:
  "monitor_cycle (\<lambda>m. \<lparr>dialog_result = Cancelled, db_writable = True\<rparr>) 3
       (ScanResults [\<lparr>bssid = ''aa:01'', ssid = ''Home''\<rparr>]) 0 \<lparr>known_networks = [], db = []\<rparr> =
     ([Announce ''New signal detected'', Prompt ''Home'' ''aa:01''], 1, \<lparr>known_networks = [], db = []\<rparr>)
   \<and> monitor_cycle (\<lambda>m. \<lparr>dialog_result = Cancelled, db_writable = True\<rparr>) 4
       (ScanResults [\<lparr>bssid = ''aa:01'', ssid = ''''\<rparr>]) 1 \<lparr>known_networks = [], db = []\<rparr> =
     ([], 1, \<lparr>known_networks = [], db = []\<rparr>)"
  by code_simp

end
